theory Spec2Isabelle
  imports Main "HOL-Library.Word"
begin

section \<open>The VotingBlock contract\<close>

text \<open>
  A shallow embedding of the Solidity contract \<open>VotingBlock\<close> (pragma 0.8.26).

  \<^item> \<open>uint\<close> is \<open>uint256\<close>, a 256-bit word; \<open>address\<close> is a 160-bit word.
  \<^item> Arithmetic is checked, as it is from Solidity 0.8 on: an overflowing \<open>+\<close> or
    \<open>++\<close> aborts the call with \<open>Panic(0x11)\<close>, an array access out of bounds with
    \<open>Panic(0x32)\<close>.
  \<^item> A failing \<open>require\<close> aborts the call with \<open>Revert\<close> and the message of the source.
  \<^item> A call that aborts leaves no trace: the functions below return \<open>Inl\<close> of the error
    and no state, and \<open>transact\<close> keeps the state the call started from.
  \<^item> \<open>keccak256\<close> is a parameter of the model: nothing is assumed about the hash
    function except that it is a function.
  \<^item> \<open>msg.sender\<close> and \<open>block.timestamp\<close> are arguments of the functions that read them.
  \<^item> Arrays are lists; loop counters that range over the indices of an array are
    natural numbers below its length.
\<close>

type_synonym uint = "256 word"
type_synonym address = "160 word"

datatype error = Revert string | Panic nat

datatype event =
    VotingSessionCreated uint string "string list" uint uint
  | VoteCast uint address uint
  | ResultsCalculated uint "uint list"

record VotingSession =
  title :: string
  candidates :: "string list"
  isActive :: bool
  startTimestamp :: uint
  endTimestamp :: uint
  resultsCalculated :: bool
  finalTally :: "uint list"
  hasVoted :: "address \<Rightarrow> bool"

text \<open>The storage of the contract, and the log of the events it has emitted.\<close>

record VotingBlock =
  votingSessions :: "uint \<Rightarrow> VotingSession"
  votingSessionCount :: uint
  events :: "event list"

text \<open>Storage that was never written reads as zero: the default session.\<close>

definition default_session :: VotingSession where
  "default_session =
     \<lparr>title = [], candidates = [], isActive = False, startTimestamp = 0,
      endTimestamp = 0, resultsCalculated = False, finalTally = [],
      hasVoted = (\<lambda>a. False)\<rparr>"

definition deployed :: VotingBlock where
  "deployed =
     \<lparr>votingSessions = (\<lambda>i. default_session), votingSessionCount = 0, events = []\<rparr>"

definition checked_add :: "uint \<Rightarrow> uint \<Rightarrow> error + uint" where
  "checked_add a b =
     (if unat a + unat b < 2 ^ 256 then Inr (a + b) else Inl (Panic 17))"

subsection \<open>createVotingSession\<close>

text \<open>The inner loop of the duplicate check: \<open>for (uint j = i + 1; j < length; j++)\<close>.\<close>

function duplicate_loop_j ::
    "(string \<Rightarrow> uint) \<Rightarrow> string list \<Rightarrow> nat \<Rightarrow> nat \<Rightarrow> error + unit" where
  "duplicate_loop_j keccak256 cs i j =
     (if j < length cs then
        (if keccak256 (cs ! i) \<noteq> keccak256 (cs ! j)
         then duplicate_loop_j keccak256 cs i (j + 1)
         else Inl (Revert ''Duplicate candidate found.''))
      else Inr ())"
  by pat_completeness auto
termination
  by (relation "measure (\<lambda>(k, cs, i, j). length cs - j)") auto

text \<open>The outer loop: \<open>for (uint i = 0; i < length; i++)\<close>.\<close>

function duplicate_loop_i ::
    "(string \<Rightarrow> uint) \<Rightarrow> string list \<Rightarrow> nat \<Rightarrow> error + unit" where
  "duplicate_loop_i keccak256 cs i =
     (if i < length cs then
        (case duplicate_loop_j keccak256 cs i (i + 1) of
           Inl e \<Rightarrow> Inl e
         | Inr u \<Rightarrow> duplicate_loop_i keccak256 cs (i + 1))
      else Inr ())"
  by pat_completeness auto
termination
  by (relation "measure (\<lambda>(k, cs, i). length cs - i)") auto

definition createVotingSession ::
    "(string \<Rightarrow> uint) \<Rightarrow> uint \<Rightarrow> string \<Rightarrow> string list \<Rightarrow> uint \<Rightarrow> VotingBlock
     \<Rightarrow> error + (uint \<times> VotingBlock)" where
  "createVotingSession keccak256 block_timestamp title' candidates' durationInSeconds s =
     (if \<not> length candidates' > 1 then Inl (Revert ''Need at least two candidates.'')
      else if \<not> durationInSeconds > 0 then Inl (Revert ''Duration must be greater than zero.'')
      else case duplicate_loop_i keccak256 candidates' 0 of
        Inl e \<Rightarrow> Inl e
      | Inr u \<Rightarrow>
         (let sessionId = votingSessionCount s in
          case checked_add (votingSessionCount s) 1 of
            Inl e \<Rightarrow> Inl e
          | Inr count' \<Rightarrow>
             (case checked_add block_timestamp durationInSeconds of
                Inl e \<Rightarrow> Inl e
              | Inr end' \<Rightarrow>
                 Inr (sessionId,
                   s\<lparr>votingSessionCount := count',
                     votingSessions := (votingSessions s)(sessionId :=
                       (votingSessions s sessionId)
                         \<lparr>title := title',
                          candidates := candidates',
                          isActive := True,
                          startTimestamp := block_timestamp,
                          endTimestamp := end',
                          finalTally := replicate (length candidates') 0\<rparr>),
                     events := events s @
                       [VotingSessionCreated sessionId title' candidates'
                          block_timestamp end']\<rparr>))))"

subsection \<open>vote\<close>

definition vote ::
    "address \<Rightarrow> uint \<Rightarrow> uint \<Rightarrow> uint \<Rightarrow> VotingBlock \<Rightarrow> error + VotingBlock" where
  "vote msg_sender block_timestamp sessionId candidateIndex s =
     (let session = votingSessions s sessionId in
      if \<not> isActive session then Inl (Revert ''Voting session is not active.'')
      else if \<not> block_timestamp \<le> endTimestamp session
        then Inl (Revert ''Voting session has ended.'')
      else if \<not> \<not> hasVoted session msg_sender then Inl (Revert ''You have already voted.'')
      else if \<not> unat candidateIndex < length (candidates session)
        then Inl (Revert ''Invalid candidate index.'')
      else if \<not> unat candidateIndex < length (finalTally session) then Inl (Panic 50)
      else case checked_add (finalTally session ! unat candidateIndex) 1 of
        Inl e \<Rightarrow> Inl e
      | Inr n \<Rightarrow>
         Inr (s\<lparr>votingSessions := (votingSessions s)(sessionId :=
                   session\<lparr>hasVoted := (hasVoted session)(msg_sender := True),
                           finalTally := (finalTally session)[unat candidateIndex := n]\<rparr>),
                 events := events s @ [VoteCast sessionId msg_sender candidateIndex]\<rparr>))"

subsection \<open>calculateResults\<close>

definition calculateResults :: "uint \<Rightarrow> uint \<Rightarrow> VotingBlock \<Rightarrow> error + VotingBlock" where
  "calculateResults block_timestamp sessionId s =
     (if \<not> sessionId < votingSessionCount s then Inl (Revert ''Invalid session ID.'')
      else let session = votingSessions s sessionId in
        if \<not> isActive session then Inl (Revert ''Session already finalized.'')
        else if \<not> block_timestamp > endTimestamp session
          then Inl (Revert ''Voting period is still active.'')
        else if \<not> \<not> resultsCalculated session
          then Inl (Revert ''Results already calculated.'')
        else
          Inr (s\<lparr>votingSessions := (votingSessions s)(sessionId :=
                    session\<lparr>resultsCalculated := True, isActive := False\<rparr>),
                  events := events s @ [ResultsCalculated sessionId (finalTally session)]\<rparr>))"

subsection \<open>getWinners\<close>

text \<open>The first loop: the highest count and the number of candidates that have it.\<close>

function count_winners :: "uint list \<Rightarrow> nat \<Rightarrow> uint \<Rightarrow> uint \<Rightarrow> error + (uint \<times> uint)" where
  "count_winners tally i highestVoteCount winnersCount =
     (if i < length tally then
        (if tally ! i > highestVoteCount then count_winners tally (i + 1) (tally ! i) 1
         else if tally ! i = highestVoteCount then
           (case checked_add winnersCount 1 of
              Inl e \<Rightarrow> Inl e
            | Inr c \<Rightarrow> count_winners tally (i + 1) highestVoteCount c)
         else count_winners tally (i + 1) highestVoteCount winnersCount)
      else Inr (highestVoteCount, winnersCount))"
  by pat_completeness auto
termination
  by (relation "measure (\<lambda>(tally, i, h, c). length tally - i)") auto

text \<open>The second loop: the names of these candidates, written into \<open>winners\<close>.\<close>

function collect_winners ::
    "VotingSession \<Rightarrow> uint \<Rightarrow> nat \<Rightarrow> string list \<Rightarrow> uint \<Rightarrow> error + string list" where
  "collect_winners session highestVoteCount i winners index =
     (if i < length (finalTally session) then
        (if finalTally session ! i = highestVoteCount then
           (if \<not> i < length (candidates session) then Inl (Panic 50)
            else if \<not> unat index < length winners then Inl (Panic 50)
            else case checked_add index 1 of
              Inl e \<Rightarrow> Inl e
            | Inr index' \<Rightarrow>
                collect_winners session highestVoteCount (i + 1)
                  (winners[unat index := candidates session ! i]) index')
         else collect_winners session highestVoteCount (i + 1) winners index)
      else Inr winners)"
  by pat_completeness auto
termination
  by (relation "measure (\<lambda>(session, h, i, w, ix). length (finalTally session) - i)") auto

definition getWinners :: "uint \<Rightarrow> VotingBlock \<Rightarrow> error + string list" where
  "getWinners sessionId s =
     (let session = votingSessions s sessionId in
      if \<not> resultsCalculated session then Inl (Revert ''Results not calculated yet.'')
      else case count_winners (finalTally session) 0 0 0 of
        Inl e \<Rightarrow> Inl e
      | Inr (highestVoteCount, winnersCount) \<Rightarrow>
          collect_winners session highestVoteCount 0
            (replicate (unat winnersCount) []) 0)"

subsection \<open>Transactions\<close>

text \<open>
  A transaction is a call of one of the three state-changing functions by \<open>msg_sender\<close>
  in a block with time \<open>block_timestamp\<close>. When the call aborts, the state is the one
  before the call.
\<close>

datatype call =
    CreateVotingSession string "string list" uint
  | Vote uint uint
  | CalculateResults uint

datatype outcome = Aborted error | Created uint | Done

record tx =
  msg_sender :: address
  block_timestamp :: uint
  tx_call :: call

fun call_function ::
    "(string \<Rightarrow> uint) \<Rightarrow> address \<Rightarrow> uint \<Rightarrow> call \<Rightarrow> VotingBlock \<Rightarrow> error + (outcome \<times> VotingBlock)" where
  "call_function keccak256 a t (CreateVotingSession title' candidates' d) s =
     (case createVotingSession keccak256 t title' candidates' d s of
        Inl e \<Rightarrow> Inl e | Inr (sessionId, s') \<Rightarrow> Inr (Created sessionId, s'))"
| "call_function keccak256 a t (Vote sessionId candidateIndex) s =
     (case vote a t sessionId candidateIndex s of
        Inl e \<Rightarrow> Inl e | Inr s' \<Rightarrow> Inr (Done, s'))"
| "call_function keccak256 a t (CalculateResults sessionId) s =
     (case calculateResults t sessionId s of
        Inl e \<Rightarrow> Inl e | Inr s' \<Rightarrow> Inr (Done, s'))"

definition transact :: "(string \<Rightarrow> uint) \<Rightarrow> tx \<Rightarrow> VotingBlock \<Rightarrow> outcome \<times> VotingBlock" where
  "transact keccak256 x s =
     (case call_function keccak256 (msg_sender x) (block_timestamp x) (tx_call x) s of
        Inl e \<Rightarrow> (Aborted e, s)
      | Inr (r, s') \<Rightarrow> (r, s'))"

text \<open>The state after a sequence of transactions, and what each of them returned.\<close>

fun run :: "(string \<Rightarrow> uint) \<Rightarrow> tx list \<Rightarrow> VotingBlock \<Rightarrow> VotingBlock" where
  "run keccak256 [] s = s"
| "run keccak256 (x # xs) s = run keccak256 xs (snd (transact keccak256 x s))"

fun outcomes :: "(string \<Rightarrow> uint) \<Rightarrow> tx list \<Rightarrow> VotingBlock \<Rightarrow> outcome list" where
  "outcomes keccak256 [] s = []"
| "outcomes keccak256 (x # xs) s =
     fst (transact keccak256 x s) # outcomes keccak256 xs (snd (transact keccak256 x s))"

text \<open>
  An array that a call receives has a length that fits a \<open>uint256\<close>: the argument
  \<open>string[] memory _candidates\<close> of a transaction is such a list.
\<close>

fun well_formed :: "tx \<Rightarrow> bool" where
  "well_formed x =
     (case tx_call x of
        CreateVotingSession title' candidates' d \<Rightarrow> length candidates' < 2 ^ 256
      | Vote sessionId candidateIndex \<Rightarrow> True
      | CalculateResults sessionId \<Rightarrow> True)"

fun created_ids :: "outcome list \<Rightarrow> uint list" where
  "created_ids [] = []"
| "created_ids (Created sessionId # os) = sessionId # created_ids os"
| "created_ids (r # os) = created_ids os"

text \<open>
  How many calls of \<open>vote\<close> by the address \<open>a\<close> for the session \<open>sessionId\<close> a
  sequence of transactions has seen succeed.
\<close>

fun is_vote_on :: "uint \<Rightarrow> call \<Rightarrow> bool" where
  "is_vote_on sessionId (Vote sessionId' candidateIndex) = (sessionId' = sessionId)"
| "is_vote_on sessionId c = False"

fun accepted_votes ::
    "(string \<Rightarrow> uint) \<Rightarrow> address \<Rightarrow> uint \<Rightarrow> tx list \<Rightarrow> VotingBlock \<Rightarrow> nat" where
  "accepted_votes keccak256 a sessionId [] s = 0"
| "accepted_votes keccak256 a sessionId (x # xs) s =
     (if msg_sender x = a \<and> is_vote_on sessionId (tx_call x)
         \<and> fst (transact keccak256 x s) = Done then 1 else 0)
     + accepted_votes keccak256 a sessionId xs (snd (transact keccak256 x s))"

subsection \<open>A hash function for the examples\<close>

text \<open>
  The theorems below hold for every function in the place of \<open>keccak256\<close>. The examples
  run the model with this one: the bytes of the string read as a number, least
  significant byte first. It tells apart any two of the candidate names of the examples.
\<close>

definition bytes_hash :: "string \<Rightarrow> uint" where
  "bytes_hash b = of_nat (foldr (\<lambda>c n. of_char c + 256 * n) b 0)"

text \<open>
  The transactions of the examples: address 1 opens a poll of sixty seconds over three
  fruits at time 100, which becomes session 0; \<open>cast a t c\<close> is the vote of address
  \<open>a\<close> at time \<open>t\<close> for candidate \<open>c\<close> of session 0; \<open>close_poll\<close> calculates
  the results of session 0 at time 161. \<open>poll_session\<close> is session 0 as created.
\<close>

definition fruit_poll :: tx where
  "fruit_poll =
     \<lparr>msg_sender = 1, block_timestamp = 100,
      tx_call = CreateVotingSession ''Best fruit'' [''Banana'', ''Watermelon'', ''Papaya''] 60\<rparr>"

definition cast :: "address \<Rightarrow> uint \<Rightarrow> uint \<Rightarrow> tx" where
  "cast a t c = \<lparr>msg_sender = a, block_timestamp = t, tx_call = Vote 0 c\<rparr>"

definition close_poll :: tx where
  "close_poll = \<lparr>msg_sender = 1, block_timestamp = 161, tx_call = CalculateResults 0\<rparr>"

definition poll_session :: VotingSession where
  "poll_session =
     \<lparr>title = ''Best fruit'', candidates = [''Banana'', ''Watermelon'', ''Papaya''],
      isActive = True, startTimestamp = 100, endTimestamp = 160,
      resultsCalculated = False, finalTally = [0, 0, 0], hasVoted = (\<lambda>a. False)\<rparr>"

subsection \<open>Invariants of the storage\<close>

definition session_ok :: "VotingSession \<Rightarrow> bool" where
  "session_ok v \<longleftrightarrow>
     length (finalTally v) = length (candidates v) \<and>
     sum_list (map unat (finalTally v)) = card {a. hasVoted v a} \<and>
     (resultsCalculated v \<longrightarrow> \<not> isActive v) \<and>
     (isActive v \<or> resultsCalculated v \<longrightarrow> 2 \<le> length (candidates v))"

definition storage_ok :: "VotingBlock \<Rightarrow> bool" where
  "storage_ok s \<longleftrightarrow>
     (\<forall>i. session_ok (votingSessions s i)) \<and>
     (\<forall>i. votingSessionCount s \<le> i \<longrightarrow> votingSessions s i = default_session)"

definition lengths_ok :: "VotingBlock \<Rightarrow> bool" where
  "lengths_ok s \<longleftrightarrow> (\<forall>i. length (finalTally (votingSessions s i)) < 2 ^ 256)"

text \<open>
  The loops are recursive in every branch: their equations are unfolded one step at a
  time, not by the simplifier on its own.
\<close>

declare duplicate_loop_j.simps [simp del]
declare duplicate_loop_i.simps [simp del]
declare count_winners.simps [simp del]
declare collect_winners.simps [simp del]

section \<open>The duplicate check\<close>


lemma duplicate_loop_j_error:
  "duplicate_loop_j k cs i j = Inl e \<Longrightarrow> e = Revert ''Duplicate candidate found.''"
proof (induction k cs i j rule: duplicate_loop_j.induct)
  case (1 k cs i j)
  then show ?case
    by (subst (asm) (2) duplicate_loop_j.simps) (auto split: if_splits)
qed

lemma duplicate_loop_i_error:
  "duplicate_loop_i k cs i = Inl e \<Longrightarrow> e = Revert ''Duplicate candidate found.''"
proof (induction k cs i rule: duplicate_loop_i.induct)
  case (1 k cs i)
  then show ?case
    by (subst (asm) (2) duplicate_loop_i.simps)
       (auto split: if_splits sum.splits dest: duplicate_loop_j_error)
qed

lemma duplicate_loop_j_Inr:
  "duplicate_loop_j k cs i j = Inr u \<Longrightarrow> j \<le> b \<Longrightarrow> b < length cs \<Longrightarrow> k (cs ! i) \<noteq> k (cs ! b)"
proof (induction k cs i j rule: duplicate_loop_j.induct)
  case (1 k cs i j)
  from "1.prems"(1) have j: "j < length cs \<Longrightarrow> k (cs ! i) \<noteq> k (cs ! j)"
    and r: "j < length cs \<Longrightarrow> duplicate_loop_j k cs i (j + 1) = Inr u"
    by (subst (asm) duplicate_loop_j.simps, simp split: if_splits)+
  show ?case
  proof (cases "b = j")
    case True
    with j "1.prems" show ?thesis by simp
  next
    case False
    with "1.prems" have "j + 1 \<le> b" "j < length cs" by simp_all
    with "1.IH" j r "1.prems" show ?thesis by simp
  qed
qed

lemma duplicate_loop_i_Inr:
  "duplicate_loop_i k cs i = Inr u \<Longrightarrow> i \<le> a \<Longrightarrow> a < b \<Longrightarrow> b < length cs \<Longrightarrow> k (cs ! a) \<noteq> k (cs ! b)"
proof (induction k cs i rule: duplicate_loop_i.induct)
  case (1 k cs i)
  from "1.prems" have il: "i < length cs" by simp
  from "1.prems"(1) il have inner: "duplicate_loop_j k cs i (i + 1) = Inr ()"
    and r: "duplicate_loop_i k cs (i + 1) = Inr u"
    by (subst (asm) duplicate_loop_i.simps, simp split: if_splits sum.splits)+
  show ?case
  proof (cases "a = i")
    case True
    with inner "1.prems" show ?thesis
      using duplicate_loop_j_Inr [of k cs i "i + 1" "()" b] by simp
  next
    case False
    with "1.prems" have "i + 1 \<le> a" by simp
    with "1.IH" [OF il inner r] "1.prems" show ?thesis by simp
  qed
qed

lemma duplicate_loop_i_not_distinct:
  assumes "\<not> distinct cs"
  shows "duplicate_loop_i k cs 0 = Inl (Revert ''Duplicate candidate found.'')"
proof (cases "duplicate_loop_i k cs 0")
  case (Inl e)
  then show ?thesis using duplicate_loop_i_error by blast
next
  case (Inr u)
  from assms obtain a b where ab: "a < b" "b < length cs" "cs ! a = cs ! b"
    unfolding distinct_conv_nth
    by (metis linorder_neqE_nat)
  with duplicate_loop_i_Inr [OF Inr, of a b] show ?thesis by simp
qed

section \<open>The two loops of getWinners\<close>

lemma checked_add_one:
  "unat c < n \<Longrightarrow> n < 2 ^ 256 \<Longrightarrow> checked_add c 1 = Inr (c + 1) \<and> unat (c + 1) = unat c + 1"
  by (simp add: checked_add_def unat_word_ariths)

lemma count_winners_result:
  "i \<le> length t \<Longrightarrow> length t < 2 ^ 256 \<Longrightarrow> unat c \<le> i \<Longrightarrow>
   \<exists>h' c'. count_winners t i h c = Inr (h', c') \<and> h' = fold max (drop i t) h \<and>
     unat c' = (if h' = h then unat c else 0) + length (filter (\<lambda>x. x = h') (drop i t))"
proof (induction t i h c rule: count_winners.induct)
  case (1 t i h c)
  show ?case
  proof (cases "i < length t")
    case False
    with "1.prems" show ?thesis
      by (subst count_winners.simps) simp
  next
    case il: True
    then have dr: "drop i t = t ! i # drop (i + 1) t"
      by (simp add: Cons_nth_drop_Suc)
    have ge: "\<And>a. a \<le> fold max (drop (i + 1) t) a"
      by (metis Max.set_eq_fold Max_ge List.finite_set list.set_intros(1))
    consider (gt) "t ! i > h" | (eq) "t ! i = h" | (lt) "t ! i < h"
      by (metis linorder_neqE)
    then show ?thesis
    proof cases
      case gt
      from il "1.prems" have "i + 1 \<le> length t" "unat (1 :: uint) \<le> i + 1" by simp_all
      from "1.IH"(1) [OF il gt this(1) "1.prems"(2) this(2)]
      obtain h' c' where r: "count_winners t (i + 1) (t ! i) 1 = Inr (h', c')"
        "h' = fold max (drop (i + 1) t) (t ! i)"
        "unat c' = (if h' = t ! i then unat (1 :: uint) else 0)
           + length (filter (\<lambda>x. x = h') (drop (i + 1) t))"
        by blast
      from ge [of "t ! i"] r(2) gt have "h' \<noteq> h" by auto
      with r gt il show ?thesis
        by (subst count_winners.simps) (auto simp: dr max_def)
    next
      case eq
      from il "1.prems" have ca: "checked_add c 1 = Inr (c + 1)" "unat (c + 1) = unat c + 1"
        using checked_add_one [of c "length t"] by simp_all
      from il "1.prems" ca have p: "i + 1 \<le> length t" "unat (c + 1) \<le> i + 1" by simp_all
      have ngt: "\<not> t ! i > h" using eq by simp
      from "1.IH"(2) [OF il ngt eq ca(1) p(1) "1.prems"(2) p(2)]
      obtain h' c' where r: "count_winners t (i + 1) h (c + 1) = Inr (h', c')"
        "h' = fold max (drop (i + 1) t) h"
        "unat c' = (if h' = h then unat (c + 1) else 0)
           + length (filter (\<lambda>x. x = h') (drop (i + 1) t))"
        by blast
      with eq il ca show ?thesis
        by (subst count_winners.simps) (auto simp: dr)
    next
      case lt
      then have ngt: "\<not> t ! i > h" and neq: "t ! i \<noteq> h" by auto
      from il "1.prems" have p: "i + 1 \<le> length t" "unat c \<le> i + 1" by simp_all
      from "1.IH"(3) [OF il ngt neq p(1) "1.prems"(2) p(2)]
      obtain h' c' where r: "count_winners t (i + 1) h c = Inr (h', c')"
        "h' = fold max (drop (i + 1) t) h"
        "unat c' = (if h' = h then unat c else 0)
           + length (filter (\<lambda>x. x = h') (drop (i + 1) t))"
        by blast
      from ge [of h] r(2) lt have "h' \<noteq> t ! i" by auto
      with r lt il ngt neq show ?thesis
        by (subst count_winners.simps) (auto simp: dr max_def)
    qed
  qed
qed

lemma collect_winners_result:
  "length (finalTally v) \<le> length (candidates v) \<Longrightarrow> i \<le> length (finalTally v) \<Longrightarrow>
   unat ix + length (filter (\<lambda>j. finalTally v ! j = h) [i..<length (finalTally v)]) = length w \<Longrightarrow>
   length w < 2 ^ 256 \<Longrightarrow>
   collect_winners v h i w ix =
     Inr (take (unat ix) w @
          map (\<lambda>j. candidates v ! j) (filter (\<lambda>j. finalTally v ! j = h) [i..<length (finalTally v)]))"
proof (induction v h i w ix rule: collect_winners.induct)
  case (1 v h i w ix)
  show ?case
  proof (cases "i < length (finalTally v)")
    case False
    with "1.prems" show ?thesis
      by (subst collect_winners.simps) simp
  next
    case il: True
    then have up: "[i..<length (finalTally v)] = i # [i + 1..<length (finalTally v)]"
      by (simp add: upt_conv_Cons)
    show ?thesis
    proof (cases "finalTally v ! i = h")
      case eq: True
      from "1.prems"(3) eq have ixl: "unat ix < length w"
        by (simp add: up)
      with "1.prems" have ca: "checked_add ix 1 = Inr (ix + 1)" "unat (ix + 1) = unat ix + 1"
        using checked_add_one [of ix "length w"] by simp_all
      from il "1.prems" have ic: "\<not> \<not> i < length (candidates v)" by simp
      have nx: "\<not> \<not> unat ix < length w" using ixl by simp
      have "collect_winners v h (i + 1) (w[unat ix := candidates v ! i]) (ix + 1) =
        Inr (take (unat (ix + 1)) (w[unat ix := candidates v ! i]) @
          map (\<lambda>j. candidates v ! j)
            (filter (\<lambda>j. finalTally v ! j = h) [i + 1..<length (finalTally v)]))"
        using "1.prems" il ca eq
        by (intro "1.IH"(1) [OF il eq ic nx ca(1)]) (simp_all add: up)
      with il eq ixl ic ca show ?thesis
        by (subst collect_winners.simps) (simp add: up take_Suc_conv_app_nth)
    next
      case ne: False
      from "1.prems" il ne have
        "collect_winners v h (i + 1) w ix =
          Inr (take (unat ix) w @
            map (\<lambda>j. candidates v ! j)
              (filter (\<lambda>j. finalTally v ! j = h) [i + 1..<length (finalTally v)]))"
        by (intro "1.IH"(2) [OF il ne]) (simp_all add: up)
      with il ne show ?thesis
        by (subst collect_winners.simps) (simp add: up)
    qed
  qed
qed

lemma filter_indices_length:
  "length (filter (\<lambda>j. t ! j = h) [0..<length t]) = length (filter (\<lambda>x. x = h) t)"
proof -
  have "filter (\<lambda>x. x = h) (map ((!) t) [0..<length t]) =
        map ((!) t) (filter (\<lambda>j. t ! j = h) [0..<length t])"
    by (simp add: filter_map comp_def)
  then show ?thesis
    by (metis length_map map_nth)
qed

lemma fold_max_zero:
  fixes t :: "uint list"
  shows "t \<noteq> [] \<Longrightarrow> fold max t 0 = Max (set t)"
proof -
  assume ne: "t \<noteq> []"
  have "fold max t 0 = Max (set (0 # t))"
    by (simp only: Max.set_eq_fold)
  also have "\<dots> = max 0 (Max (set t))"
    using ne by simp
  also have "\<dots> = Max (set t)"
    by (simp add: max_def)
  finally show ?thesis .
qed

lemma getWinners_result:
  assumes "resultsCalculated (votingSessions s sessionId)"
    and "length (finalTally (votingSessions s sessionId)) = length (candidates (votingSessions s sessionId))"
    and "length (finalTally (votingSessions s sessionId)) < 2 ^ 256"
    and "finalTally (votingSessions s sessionId) \<noteq> []"
  shows "getWinners sessionId s =
    Inr (map (\<lambda>j. candidates (votingSessions s sessionId) ! j)
          (filter (\<lambda>j. finalTally (votingSessions s sessionId) ! j =
                        Max (set (finalTally (votingSessions s sessionId))))
             [0..<length (finalTally (votingSessions s sessionId))]))"
proof -
  define v where "v = votingSessions s sessionId"
  define t where "t = finalTally v"
  note a = assms [folded v_def, folded t_def]
  from count_winners_result [of 0 t 0 0] a(3)
  obtain h c where r: "count_winners t 0 0 0 = Inr (h, c)" "h = fold max t 0"
    "unat c = (if h = 0 then unat (0 :: uint) else 0) + length (filter (\<lambda>x. x = h) t)"
    by auto
  from r(2) a(4) have h: "h = Max (set t)" by (simp add: fold_max_zero)
  from r(3) have c: "unat c = length (filter (\<lambda>j. t ! j = h) [0..<length t])"
    by (simp add: filter_indices_length)
  have "unat c \<le> length t"
    unfolding c by (metis diff_zero length_filter_le length_upt)
  with a(3) have lw: "length (replicate (unat c) ([] :: string)) < 2 ^ 256" by simp
  have "collect_winners v h 0 (replicate (unat c) []) 0 =
    Inr (take (unat (0 :: uint)) (replicate (unat c) []) @
      map (\<lambda>j. candidates v ! j) (filter (\<lambda>j. finalTally v ! j = h) [0..<length (finalTally v)]))"
    using a(2) c lw by (intro collect_winners_result) (simp_all add: t_def)
  with r(1) a(1) h show ?thesis
    by (simp add: getWinners_def v_def [symmetric] t_def [symmetric])
qed

section \<open>The invariants are kept\<close>

lemma session_ok_default: "session_ok default_session"
  by (simp add: session_ok_def default_session_def)

lemma storage_ok_deployed: "storage_ok deployed"
  by (simp add: storage_ok_def deployed_def session_ok_default)

lemma checked_add_Inr:
  "checked_add a b = Inr c \<Longrightarrow> c = a + b \<and> unat c = unat a + unat b"
  by (auto simp: checked_add_def unat_word_ariths split: if_splits)

lemma createVotingSession_Inr:
  assumes "createVotingSession k t ti cs d s = Inr (sessionId, s')"
  shows "sessionId = votingSessionCount s"
    and "unat (votingSessionCount s') = unat (votingSessionCount s) + 1"
    and "unat t + unat d < 2 ^ 256"
    and "2 \<le> length cs"
    and "s' = s\<lparr>votingSessionCount := votingSessionCount s + 1,
               votingSessions := (votingSessions s)(votingSessionCount s :=
                 (votingSessions s (votingSessionCount s))
                   \<lparr>title := ti, candidates := cs, isActive := True, startTimestamp := t,
                    endTimestamp := t + d, finalTally := replicate (length cs) 0\<rparr>),
               events := events s @
                 [VotingSessionCreated (votingSessionCount s) ti cs t (t + d)]\<rparr>"
  using assms
  by (auto simp: createVotingSession_def Let_def checked_add_def unat_word_ariths
           split: if_splits sum.splits)

lemma storage_ok_createVotingSession:
  assumes ok: "storage_ok s"
    and c: "createVotingSession k t ti cs d s = Inr (sessionId, s')"
  shows "storage_ok s'"
proof -
  note r = createVotingSession_Inr [OF c]
  have d: "votingSessions s (votingSessionCount s) = default_session"
    using ok by (simp add: storage_ok_def)
  have lt: "\<And>i. votingSessionCount s' \<le> i \<Longrightarrow> votingSessionCount s < i"
    using r(2) by (simp add: word_le_nat_alt word_less_nat_alt)
  have new: "session_ok (default_session
      \<lparr>title := ti, candidates := cs, isActive := True, startTimestamp := t,
       endTimestamp := t + d, finalTally := replicate (length cs) 0\<rparr>)"
    using r(4) by (simp add: session_ok_def default_session_def)
  have c': "votingSessionCount s' = votingSessionCount s + 1"
    by (simp add: r(5))
  have v': "votingSessions s' = (votingSessions s)(votingSessionCount s :=
      default_session
        \<lparr>title := ti, candidates := cs, isActive := True, startTimestamp := t,
         endTimestamp := t + d, finalTally := replicate (length cs) 0\<rparr>)"
    by (simp add: r(5) d)
  show ?thesis
    unfolding storage_ok_def
  proof (intro conjI allI impI)
    fix i
    show "session_ok (votingSessions s' i)"
      using ok new by (simp add: v' storage_ok_def)
  next
    fix i
    assume "votingSessionCount s' \<le> i"
    then have "votingSessionCount s < i" by (rule lt)
    then show "votingSessions s' i = default_session"
      using ok by (simp add: v' storage_ok_def)
  qed
qed

lemma vote_Inr:
  assumes "vote a t sessionId c s = Inr s'"
  shows "isActive (votingSessions s sessionId)"
    and "t \<le> endTimestamp (votingSessions s sessionId)"
    and "\<not> hasVoted (votingSessions s sessionId) a"
    and "unat c < length (candidates (votingSessions s sessionId))"
    and "unat c < length (finalTally (votingSessions s sessionId))"
    and "unat (finalTally (votingSessions s sessionId) ! unat c + 1) =
         unat (finalTally (votingSessions s sessionId) ! unat c) + 1"
    and "s' = s\<lparr>votingSessions := (votingSessions s)(sessionId :=
                 (votingSessions s sessionId)
                   \<lparr>hasVoted := (hasVoted (votingSessions s sessionId))(a := True),
                    finalTally := (finalTally (votingSessions s sessionId))
                      [unat c := finalTally (votingSessions s sessionId) ! unat c + 1]\<rparr>),
               events := events s @ [VoteCast sessionId a c]\<rparr>"
  using assms
  by (auto simp: vote_def Let_def checked_add_def unat_word_ariths
           split: if_splits sum.splits)

lemma sum_list_unat_update:
  fixes xs :: "uint list"
  assumes "i < length xs" and "unat n = unat (xs ! i) + 1"
  shows "sum_list (map unat (xs[i := n])) = sum_list (map unat xs) + 1"
proof -
  have "sum_list (map unat (xs[i := n])) = sum_list ((map unat xs)[i := unat n])"
    by (simp add: map_update)
  also have "\<dots> = sum_list (map unat xs) + unat n - map unat xs ! i"
    using assms(1) by (simp add: sum_list_update)
  finally show ?thesis using assms by simp
qed

lemma card_voters_update:
  fixes hv :: "address \<Rightarrow> bool"
  assumes "\<not> hv a"
  shows "card {x. (hv(a := True)) x} = card {x. hv x} + 1"
proof -
  have "{x. (hv(a := True)) x} = insert a {x. hv x}" by auto
  moreover have "a \<notin> {x. hv x}" using assms by simp
  ultimately show ?thesis by simp
qed

lemma storage_ok_vote:
  assumes ok: "storage_ok s" and c: "vote a t sessionId c s = Inr s'"
  shows "storage_ok s'"
proof -
  note r = vote_Inr [OF c]
  define v where "v = votingSessions s sessionId"
  have okv: "session_ok v" using ok by (simp add: storage_ok_def v_def)
  have new: "session_ok (v\<lparr>hasVoted := (hasVoted v)(a := True),
      finalTally := (finalTally v)[unat c := finalTally v ! unat c + 1]\<rparr>)"
  proof -
    have "sum_list (map unat ((finalTally v)[unat c := finalTally v ! unat c + 1])) =
        sum_list (map unat (finalTally v)) + 1"
      using r(5,6) [folded v_def] by (rule sum_list_unat_update)
    moreover have "card {x. ((hasVoted v)(a := True)) x} = card {x. hasVoted v x} + 1"
      using r(3) [folded v_def] by (rule card_voters_update)
    ultimately show ?thesis
      using okv r(1) [folded v_def] by (simp add: session_ok_def del: fun_upd_apply)
  qed
  have v': "votingSessions s' = (votingSessions s)(sessionId :=
      v\<lparr>hasVoted := (hasVoted v)(a := True),
        finalTally := (finalTally v)[unat c := finalTally v ! unat c + 1]\<rparr>)"
    by (simp add: r(7) v_def)
  have c': "votingSessionCount s' = votingSessionCount s"
    by (simp add: r(7))
  have nd: "v \<noteq> default_session"
    using r(1) by (auto simp: v_def default_session_def)
  show ?thesis
    unfolding storage_ok_def
  proof (intro conjI allI impI)
    fix i
    show "session_ok (votingSessions s' i)"
      using ok new by (simp add: v' storage_ok_def)
  next
    fix i
    assume "votingSessionCount s' \<le> i"
    then have "votingSessions s i = default_session"
      using ok by (simp add: c' storage_ok_def)
    with nd have "i \<noteq> sessionId" by (auto simp: v_def)
    then show "votingSessions s' i = default_session"
      using \<open>votingSessions s i = default_session\<close> by (simp add: v')
  qed
qed

lemma calculateResults_Inr:
  assumes "calculateResults t sessionId s = Inr s'"
  shows "sessionId < votingSessionCount s"
    and "isActive (votingSessions s sessionId)"
    and "endTimestamp (votingSessions s sessionId) < t"
    and "s' = s\<lparr>votingSessions := (votingSessions s)(sessionId :=
                 (votingSessions s sessionId)\<lparr>resultsCalculated := True, isActive := False\<rparr>),
               events := events s @
                 [ResultsCalculated sessionId (finalTally (votingSessions s sessionId))]\<rparr>"
  using assms
  by (auto simp: calculateResults_def Let_def split: if_splits)

lemma storage_ok_calculateResults:
  assumes ok: "storage_ok s" and c: "calculateResults t sessionId s = Inr s'"
  shows "storage_ok s'"
proof -
  note r = calculateResults_Inr [OF c]
  define v where "v = votingSessions s sessionId"
  have okv: "session_ok v" using ok by (simp add: storage_ok_def v_def)
  have new: "session_ok (v\<lparr>resultsCalculated := True, isActive := False\<rparr>)"
    using okv r(2) [folded v_def] by (simp add: session_ok_def)
  have v': "votingSessions s' = (votingSessions s)(sessionId :=
      v\<lparr>resultsCalculated := True, isActive := False\<rparr>)"
    by (simp add: r(4) v_def)
  have c': "votingSessionCount s' = votingSessionCount s"
    by (simp add: r(4))
  show ?thesis
    unfolding storage_ok_def
  proof (intro conjI allI impI)
    fix i
    show "session_ok (votingSessions s' i)"
      using ok new by (simp add: v' storage_ok_def)
  next
    fix i
    assume "votingSessionCount s' \<le> i"
    with r(1) have "i \<noteq> sessionId" by (auto simp: c')
    with \<open>votingSessionCount s' \<le> i\<close> show "votingSessions s' i = default_session"
      using ok by (simp add: v' c' storage_ok_def)
  qed
qed

lemma storage_ok_transact: "storage_ok s \<Longrightarrow> storage_ok (snd (transact k x s))"
  by (cases "tx_call x")
     (auto simp: transact_def split: sum.splits
           intro: storage_ok_createVotingSession storage_ok_vote storage_ok_calculateResults)

lemma storage_ok_run: "storage_ok s \<Longrightarrow> storage_ok (run k xs s)"
  by (induction xs arbitrary: s) (simp_all add: storage_ok_transact)

section \<open>The examples\<close>

lemmas example_defs = fruit_poll_def cast_def close_poll_def poll_session_def bytes_hash_def
  transact_def createVotingSession_def vote_def calculateResults_def checked_add_def
  deployed_def default_session_def duplicate_loop_i.simps duplicate_loop_j.simps

lemma run_fruit_poll:
  "run bytes_hash [fruit_poll] deployed =
     \<lparr>votingSessions = (\<lambda>i. default_session)(0 := poll_session),
      votingSessionCount = 1,
      events = [VotingSessionCreated 0 ''Best fruit'' [''Banana'', ''Watermelon'', ''Papaya''] 100 160]\<rparr>"
  by (simp add: example_defs)

lemma run_two_votes:
  "run bytes_hash [fruit_poll, cast 2 110 0, cast 3 120 1] deployed =
     \<lparr>votingSessions = (\<lambda>i. default_session)(0 := poll_session
        \<lparr>finalTally := [1, 1, 0], hasVoted := (\<lambda>a. False)(2 := True, 3 := True)\<rparr>),
      votingSessionCount = 1,
      events = [VotingSessionCreated 0 ''Best fruit'' [''Banana'', ''Watermelon'', ''Papaya''] 100 160,
        VoteCast 0 2 0, VoteCast 0 3 1]\<rparr>"
  by (simp add: example_defs)

lemma run_closed:
  "run bytes_hash [fruit_poll, cast 2 110 0, cast 3 120 1, close_poll] deployed =
     \<lparr>votingSessions = (\<lambda>i. default_session)(0 := poll_session
        \<lparr>isActive := False, resultsCalculated := True,
         finalTally := [1, 1, 0], hasVoted := (\<lambda>a. False)(2 := True, 3 := True)\<rparr>),
      votingSessionCount = 1,
      events = [VotingSessionCreated 0 ''Best fruit'' [''Banana'', ''Watermelon'', ''Papaya''] 100 160,
        VoteCast 0 2 0, VoteCast 0 3 1, ResultsCalculated 0 [1, 1, 0]]\<rparr>"
  by (simp add: example_defs)

section \<open>vote\<close>

text \<open>
  C6: a vote for an open session at a time after the session's \<open>endTimestamp\<close> fails
  with "Voting session has ended.", whether or not \<open>calculateResults\<close> has been
  called: \<open>isActive\<close> is still true exactly when it has not.
\<close>

theorem vote_after_end_fails:
  "isActive (votingSessions s sessionId) \<Longrightarrow> endTimestamp (votingSessions s sessionId) < t \<Longrightarrow>
   vote a t sessionId c s = Inl (Revert ''Voting session has ended.'')"
  by (simp add: vote_def Let_def not_le)

theorem vote_after_end_fails_witness:
  "isActive (votingSessions (run bytes_hash [fruit_poll] deployed) 0) \<and>
   endTimestamp (votingSessions (run bytes_hash [fruit_poll] deployed) 0) < 161 \<and>
   resultsCalculated (votingSessions (run bytes_hash [fruit_poll] deployed) 0) = False \<and>
   vote 2 161 0 1 (run bytes_hash [fruit_poll] deployed) = Inl (Revert ''Voting session has ended.'')"
  using vote_after_end_fails [of "run bytes_hash [fruit_poll] deployed" 0 161 2 1]
  unfolding run_fruit_poll by (simp add: poll_session_def)

section \<open>createVotingSession and unknown sessions\<close>

text \<open>
  C4: \<open>createVotingSession\<close> with fewer than two candidates fails with "Need at least
  two candidates."; with two or more candidates and a duration of 0 (a \<open>uint\<close> is never
  less) it fails with "Duration must be greater than zero."; with two or more
  candidates, a duration above 0 and two equal candidate strings it fails with
  "Duplicate candidate found.": the checks are made in this order and the first one that
  fails decides. In each case the transaction is aborted and the state, so
  \<open>votingSessionCount\<close>, is what it was. This holds whatever the hash function is.
\<close>

theorem createVotingSession_rejects:
  "(length cs < 2 \<longrightarrow>
      createVotingSession k t ti cs d s = Inl (Revert ''Need at least two candidates.'')) \<and>
   (2 \<le> length cs \<and> d = 0 \<longrightarrow>
      createVotingSession k t ti cs d s = Inl (Revert ''Duration must be greater than zero.'')) \<and>
   (2 \<le> length cs \<and> d \<noteq> 0 \<and> \<not> distinct cs \<longrightarrow>
      createVotingSession k t ti cs d s = Inl (Revert ''Duplicate candidate found.'')) \<and>
   (length cs < 2 \<or> d = 0 \<or> \<not> distinct cs \<longrightarrow>
      (\<exists>e. transact k \<lparr>msg_sender = a, block_timestamp = t,
                tx_call = CreateVotingSession ti cs d\<rparr> s = (Aborted e, s)) \<and>
      votingSessionCount
        (snd (transact k \<lparr>msg_sender = a, block_timestamp = t,
                tx_call = CreateVotingSession ti cs d\<rparr> s)) = votingSessionCount s)"
proof -
  have few: "length cs < 2 \<Longrightarrow>
      createVotingSession k t ti cs d s = Inl (Revert ''Need at least two candidates.'')"
    by (simp add: createVotingSession_def)
  have zero: "2 \<le> length cs \<Longrightarrow> d = 0 \<Longrightarrow>
      createVotingSession k t ti cs d s = Inl (Revert ''Duration must be greater than zero.'')"
    by (simp add: createVotingSession_def)
  have dup: "2 \<le> length cs \<Longrightarrow> d \<noteq> 0 \<Longrightarrow> \<not> distinct cs \<Longrightarrow>
      createVotingSession k t ti cs d s = Inl (Revert ''Duplicate candidate found.'')"
    by (simp add: createVotingSession_def duplicate_loop_i_not_distinct word_greater_zero_iff)
  have "\<exists>e. createVotingSession k t ti cs d s = Inl e"
    if "length cs < 2 \<or> d = 0 \<or> \<not> distinct cs"
    using that few zero dup by (metis not_less)
  then have "\<exists>e. transact k \<lparr>msg_sender = a, block_timestamp = t,
                tx_call = CreateVotingSession ti cs d\<rparr> s = (Aborted e, s)"
    if "length cs < 2 \<or> d = 0 \<or> \<not> distinct cs"
    using that by (auto simp: transact_def)
  with few zero dup show ?thesis by auto
qed

theorem createVotingSession_rejects_witness:
  "createVotingSession bytes_hash 100 ''Best fruit'' [''Banana''] 60 deployed =
     Inl (Revert ''Need at least two candidates.'') \<and>
   createVotingSession bytes_hash 100 ''Best fruit'' [''Banana''] 0 deployed =
     Inl (Revert ''Need at least two candidates.'') \<and>
   createVotingSession bytes_hash 100 ''Best fruit'' [''Banana'', ''Banana''] 0 deployed =
     Inl (Revert ''Duration must be greater than zero.'') \<and>
   createVotingSession bytes_hash 100 ''Best fruit'' [''Banana'', ''Papaya'', ''Banana''] 60 deployed =
     Inl (Revert ''Duplicate candidate found.'') \<and>
   votingSessionCount
     (snd (transact bytes_hash \<lparr>msg_sender = 1, block_timestamp = 100,
        tx_call = CreateVotingSession ''Best fruit'' [''Banana'', ''Papaya'', ''Banana''] 60\<rparr>
        (run bytes_hash [fruit_poll] deployed))) = 1"
  using createVotingSession_rejects [of "[''Banana'']" bytes_hash 100 "''Best fruit''" 60 deployed 1]
    createVotingSession_rejects [of "[''Banana'']" bytes_hash 100 "''Best fruit''" 0 deployed 1]
    createVotingSession_rejects [of "[''Banana'', ''Banana'']" bytes_hash 100 "''Best fruit''" 0 deployed 1]
    createVotingSession_rejects [of "[''Banana'', ''Papaya'', ''Banana'']" bytes_hash 100 "''Best fruit''" 60 deployed 1]
    createVotingSession_rejects [of "[''Banana'', ''Papaya'', ''Banana'']" bytes_hash 100 "''Best fruit''" 60
      "run bytes_hash [fruit_poll] deployed" 1]
  unfolding run_fruit_poll by simp

text \<open>
  C7: after any sequence of transactions, a vote for a session id that was never handed
  out (an id at or above \<open>votingSessionCount\<close>) fails with "Voting session is not
  active.", the error that a vote for a session that is not active gets in any state.
\<close>

theorem vote_unknown_session:
  "(votingSessionCount (run k xs deployed) \<le> sessionId \<longrightarrow>
      vote a t sessionId c (run k xs deployed) = Inl (Revert ''Voting session is not active.'')) \<and>
   (\<not> isActive (votingSessions s sessionId') \<longrightarrow>
      vote a t sessionId' c s = Inl (Revert ''Voting session is not active.''))"
proof -
  have "storage_ok (run k xs deployed)"
    by (simp add: storage_ok_run storage_ok_deployed)
  then have "votingSessionCount (run k xs deployed) \<le> sessionId \<Longrightarrow>
      \<not> isActive (votingSessions (run k xs deployed) sessionId)"
    by (simp add: storage_ok_def default_session_def)
  then show ?thesis
    by (simp add: vote_def Let_def)
qed

theorem vote_unknown_session_witness:
  "votingSessionCount (run bytes_hash [fruit_poll] deployed) \<le> 5 \<and>
   vote 2 110 5 0 (run bytes_hash [fruit_poll] deployed) =
     Inl (Revert ''Voting session is not active.'') \<and>
   \<not> isActive (votingSessions
       (run bytes_hash [fruit_poll, cast 2 110 0, cast 3 120 1, close_poll] deployed) 0) \<and>
   vote 4 130 0 0 (run bytes_hash [fruit_poll, cast 2 110 0, cast 3 120 1, close_poll] deployed) =
     Inl (Revert ''Voting session is not active.'')"
  using vote_unknown_session [of bytes_hash "[fruit_poll]" 5 2 110 0
      "run bytes_hash [fruit_poll, cast 2 110 0, cast 3 120 1, close_poll] deployed" 0]
    vote_unknown_session [of bytes_hash "[fruit_poll]" 5 4 130 0
      "run bytes_hash [fruit_poll, cast 2 110 0, cast 3 120 1, close_poll] deployed" 0]
  unfolding run_fruit_poll run_closed by (simp add: poll_session_def)

section \<open>Invariants along a sequence of transactions\<close>

lemma createVotingSession_error:
  "createVotingSession k t ti cs d s = Inl e \<Longrightarrow> e \<noteq> Revert ''Results already calculated.''"
  by (auto simp: createVotingSession_def Let_def checked_add_def
           split: if_splits sum.splits dest: duplicate_loop_i_error)

lemma vote_error:
  "vote a t sessionId c s = Inl e \<Longrightarrow> e \<noteq> Revert ''Results already calculated.''"
  by (auto simp: vote_def Let_def checked_add_def split: if_splits sum.splits)

lemma calculateResults_error:
  "storage_ok s \<Longrightarrow> calculateResults t sessionId s \<noteq> Inl (Revert ''Results already calculated.'')"
  by (auto simp: calculateResults_def Let_def storage_ok_def session_ok_def)

lemma transact_error:
  "storage_ok s \<Longrightarrow> fst (transact k x s) \<noteq> Aborted (Revert ''Results already calculated.'')"
  by (cases "tx_call x")
     (auto simp: transact_def split: sum.splits
           dest: createVotingSession_error vote_error calculateResults_error)

lemma outcomes_error:
  "storage_ok s \<Longrightarrow> Aborted (Revert ''Results already calculated.'') \<notin> set (outcomes k xs s)"
proof (induction xs arbitrary: s)
  case Nil
  show ?case by simp
next
  case (Cons x xs)
  from Cons.prems have "storage_ok (snd (transact k x s))"
    by (rule storage_ok_transact)
  with Cons.IH Cons.prems transact_error [of s k x] show ?case
    by auto
qed

text \<open>
  C9: after any sequence of transactions, a session whose \<open>resultsCalculated\<close> is set is
  not active; so \<open>calculateResults\<close> never fails with "Results already calculated.":
  no call of it in the state reached does, and none of the transactions of the sequence
  did.
\<close>

theorem resultsCalculated_not_isActive:
  "(resultsCalculated (votingSessions (run k xs deployed) sessionId) \<longrightarrow>
      \<not> isActive (votingSessions (run k xs deployed) sessionId)) \<and>
   calculateResults t sessionId (run k xs deployed) \<noteq> Inl (Revert ''Results already calculated.'') \<and>
   Aborted (Revert ''Results already calculated.'') \<notin> set (outcomes k xs deployed)"
proof -
  have ok: "storage_ok (run k xs deployed)"
    by (simp add: storage_ok_run storage_ok_deployed)
  then have "session_ok (votingSessions (run k xs deployed) sessionId)"
    by (simp add: storage_ok_def)
  with ok show ?thesis
    by (simp add: session_ok_def calculateResults_error outcomes_error storage_ok_deployed)
qed

theorem resultsCalculated_not_isActive_witness:
  "resultsCalculated (votingSessions
     (run bytes_hash [fruit_poll, cast 2 110 0, cast 3 120 1, close_poll] deployed) 0) \<and>
   \<not> isActive (votingSessions
     (run bytes_hash [fruit_poll, cast 2 110 0, cast 3 120 1, close_poll] deployed) 0) \<and>
   calculateResults 170 0 (run bytes_hash [fruit_poll, cast 2 110 0, cast 3 120 1, close_poll] deployed)
     = Inl (Revert ''Session already finalized.'')"
  using resultsCalculated_not_isActive
    [of bytes_hash "[fruit_poll, cast 2 110 0, cast 3 120 1, close_poll]" 0 170]
  unfolding run_closed by (simp add: poll_session_def calculateResults_def)

text \<open>
  C3: after any sequence of transactions, in every session the entries of \<open>finalTally\<close>
  add up to the number of addresses marked in \<open>hasVoted\<close>, and no entry is negative.
\<close>

theorem tally_sum_voters:
  "sum_list (map unat (finalTally (votingSessions (run k xs deployed) sessionId))) =
     card {a. hasVoted (votingSessions (run k xs deployed) sessionId) a} \<and>
   (\<forall>n \<in> set (finalTally (votingSessions (run k xs deployed) sessionId)). 0 \<le> uint n)"
proof -
  have "storage_ok (run k xs deployed)"
    by (simp add: storage_ok_run storage_ok_deployed)
  then have "session_ok (votingSessions (run k xs deployed) sessionId)"
    by (simp add: storage_ok_def)
  then show ?thesis
    by (simp add: session_ok_def)
qed

theorem tally_sum_voters_witness:
  "sum_list (map unat (finalTally (votingSessions
     (run bytes_hash [fruit_poll, cast 2 110 0, cast 3 120 1] deployed) 0))) = 2 \<and>
   card {a. hasVoted (votingSessions
     (run bytes_hash [fruit_poll, cast 2 110 0, cast 3 120 1] deployed) 0) a} = 2 \<and>
   finalTally (votingSessions
     (run bytes_hash [fruit_poll, cast 2 110 0, cast 3 120 1] deployed) 0) = [1, 1, 0]"
  using tally_sum_voters [of bytes_hash "[fruit_poll, cast 2 110 0, cast 3 120 1]" 0]
  unfolding run_two_votes by (simp add: poll_session_def)

lemma transact_count:
  "(\<forall>sessionId. fst (transact k x s) = Created sessionId \<longrightarrow>
      sessionId = votingSessionCount s \<and>
      unat (votingSessionCount (snd (transact k x s))) = unat (votingSessionCount s) + 1) \<and>
   ((\<forall>sessionId. fst (transact k x s) \<noteq> Created sessionId) \<longrightarrow>
      votingSessionCount (snd (transact k x s)) = votingSessionCount s)"
  by (cases "tx_call x")
     (auto simp: transact_def split: sum.splits
           dest: createVotingSession_Inr(1,2) vote_Inr(7) calculateResults_Inr(4))

lemma created_ids_outcomes:
  "unat (votingSessionCount s) \<le> unat (votingSessionCount (run k xs s)) \<and>
   created_ids (outcomes k xs s) =
     map of_nat [unat (votingSessionCount s)..<unat (votingSessionCount (run k xs s))]"
proof (induction xs arbitrary: s)
  case Nil
  show ?case by simp
next
  case (Cons x xs)
  define s1 where "s1 = snd (transact k x s)"
  note ih = Cons.IH [of s1]
  show ?case
  proof (cases "fst (transact k x s)")
    case (Created sessionId)
    with transact_count [of k x s] have c: "sessionId = votingSessionCount s"
      "unat (votingSessionCount s1) = unat (votingSessionCount s) + 1"
      by (simp_all add: s1_def)
    from ih c(2) have lt: "unat (votingSessionCount s) < unat (votingSessionCount (run k xs s1))"
      by simp
    then have "[unat (votingSessionCount s)..<unat (votingSessionCount (run k xs s1))] =
      unat (votingSessionCount s) # [unat (votingSessionCount s1)..<unat (votingSessionCount (run k xs s1))]"
      by (simp add: upt_conv_Cons c(2))
    with ih lt Created c(1) show ?thesis
      by (simp add: s1_def [symmetric])
  next
    case (Aborted e)
    with transact_count [of k x s] have "votingSessionCount s1 = votingSessionCount s"
      by (simp add: s1_def)
    with ih Aborted show ?thesis
      by (simp add: s1_def [symmetric])
  next
    case Done
    with transact_count [of k x s] have "votingSessionCount s1 = votingSessionCount s"
      by (simp add: s1_def)
    with ih Done show ?thesis
      by (simp add: s1_def [symmetric])
  qed
qed

lemma distinct_word_of_nat_upt:
  "n < 2 ^ 256 \<Longrightarrow> distinct (map (of_nat :: nat \<Rightarrow> uint) [0..<n])"
proof -
  assume n: "n < 2 ^ 256"
  have "inj_on (of_nat :: nat \<Rightarrow> uint) (set [0..<n])"
  proof (rule inj_onI)
    fix a b
    assume "a \<in> set [0..<n]" "b \<in> set [0..<n]" and eq: "(of_nat a :: uint) = of_nat b"
    with n have "a < 2 ^ LENGTH(256)" "b < 2 ^ LENGTH(256)" by simp_all
    with eq show "a = b"
      by (metis of_nat_inverse)
  qed
  then show ?thesis
    by (simp add: distinct_map)
qed

lemma created_ids_deployed:
  "created_ids (outcomes k xs deployed) =
      map of_nat [0..<unat (votingSessionCount (run k xs deployed))]"
  using created_ids_outcomes [of deployed k xs] by (simp add: deployed_def)

lemma count_bound: "unat (c :: uint) < 2 ^ 256"
  using unsigned_less [of c] by simp

lemma created_ids_distinct: "distinct (created_ids (outcomes k xs deployed))"
  unfolding created_ids_deployed by (rule distinct_word_of_nat_upt) (rule count_bound)

text \<open>
  C8: a successful \<open>createVotingSession\<close> returns the \<open>votingSessionCount\<close> it found and
  leaves it one higher; so after any sequence of transactions the ids returned were
  0, 1, 2, ... in this order, \<open>votingSessionCount\<close> is their number, and no id was
  returned twice.
\<close>

theorem session_ids_dense:
  "(createVotingSession k t ti cs d s = Inr (sessionId, s') \<longrightarrow>
      sessionId = votingSessionCount s \<and>
      unat (votingSessionCount s') = unat (votingSessionCount s) + 1) \<and>
   created_ids (outcomes k xs deployed) =
     map of_nat [0..<unat (votingSessionCount (run k xs deployed))] \<and>
   unat (votingSessionCount (run k xs deployed)) = length (created_ids (outcomes k xs deployed)) \<and>
   distinct (created_ids (outcomes k xs deployed))"
proof (intro conjI impI)
  assume "createVotingSession k t ti cs d s = Inr (sessionId, s')"
  then show "sessionId = votingSessionCount s"
    and "unat (votingSessionCount s') = unat (votingSessionCount s) + 1"
    by (rule createVotingSession_Inr(1), rule createVotingSession_Inr(2))
next
  show "created_ids (outcomes k xs deployed) =
     map of_nat [0..<unat (votingSessionCount (run k xs deployed))]"
    by (rule created_ids_deployed)
next
  show "unat (votingSessionCount (run k xs deployed)) = length (created_ids (outcomes k xs deployed))"
    unfolding created_ids_deployed by simp
next
  show "distinct (created_ids (outcomes k xs deployed))"
    by (rule created_ids_distinct)
qed

theorem session_ids_dense_witness:
  "createVotingSession bytes_hash 100 ''Best fruit'' [''Banana'', ''Watermelon'', ''Papaya''] 60 deployed =
     Inr (0, run bytes_hash [fruit_poll] deployed) \<and>
   votingSessionCount deployed = 0 \<and>
   unat (votingSessionCount (run bytes_hash [fruit_poll] deployed)) = unat (votingSessionCount deployed) + 1 \<and>
   outcomes bytes_hash [fruit_poll, cast 2 110 0, cast 2 115 1, fruit_poll] deployed =
     [Created 0, Done, Aborted (Revert ''You have already voted.''), Created 1] \<and>
   created_ids (outcomes bytes_hash [fruit_poll, cast 2 110 0, cast 2 115 1, fruit_poll] deployed) = [0, 1] \<and>
   votingSessionCount (run bytes_hash [fruit_poll, cast 2 110 0, cast 2 115 1, fruit_poll] deployed) = 2"
proof -
  have o: "outcomes bytes_hash [fruit_poll, cast 2 110 0, cast 2 115 1, fruit_poll] deployed =
     [Created 0, Done, Aborted (Revert ''You have already voted.''), Created 1]"
    by (simp add: example_defs)
  have c: "votingSessionCount
      (run bytes_hash [fruit_poll, cast 2 110 0, cast 2 115 1, fruit_poll] deployed) = 2"
    by (simp add: example_defs)
  have i: "created_ids (outcomes bytes_hash [fruit_poll, cast 2 110 0, cast 2 115 1, fruit_poll] deployed)
      = [0, 1]"
    unfolding o by simp
  have r: "createVotingSession bytes_hash 100 ''Best fruit'' [''Banana'', ''Watermelon'', ''Papaya''] 60
      deployed = Inr (0, run bytes_hash [fruit_poll] deployed)"
    unfolding run_fruit_poll by (simp add: example_defs)
  from session_ids_dense [of bytes_hash 100 "''Best fruit''" "[''Banana'', ''Watermelon'', ''Papaya'']" 60
      deployed 0 "run bytes_hash [fruit_poll] deployed"
      "[fruit_poll, cast 2 110 0, cast 2 115 1, fruit_poll]"] r
  have "unat (votingSessionCount (run bytes_hash [fruit_poll] deployed)) =
      unat (votingSessionCount deployed) + 1"
    by blast
  with r o c i show ?thesis
    by (simp add: deployed_def)
qed

section \<open>getWinners on a finalized session\<close>

lemma lengths_ok_deployed: "lengths_ok deployed"
  by (simp add: lengths_ok_def deployed_def default_session_def)

lemma lengths_ok_transact:
  assumes "lengths_ok s" and "well_formed x"
  shows "lengths_ok (snd (transact k x s))"
proof (cases "tx_call x")
  case (CreateVotingSession ti cs d)
  with assms(2) have "length cs < 2 ^ 256" by simp
  with assms(1) CreateVotingSession show ?thesis
    by (auto simp: transact_def lengths_ok_def split: sum.splits
             dest!: createVotingSession_Inr(5))
next
  case (Vote sessionId c)
  with assms(1) show ?thesis
    by (auto simp: transact_def lengths_ok_def split: sum.splits dest!: vote_Inr(7))
next
  case (CalculateResults sessionId)
  with assms(1) show ?thesis
    by (auto simp: transact_def lengths_ok_def split: sum.splits dest!: calculateResults_Inr(4))
qed

lemma lengths_ok_run:
  "lengths_ok s \<Longrightarrow> list_all well_formed xs \<Longrightarrow> lengths_ok (run k xs s)"
  by (induction xs arbitrary: s) (simp_all add: lengths_ok_transact del: well_formed.simps)

lemma finalized_session:
  assumes "list_all well_formed xs"
    and "resultsCalculated (votingSessions (run k xs deployed) sessionId)"
  shows "length (finalTally (votingSessions (run k xs deployed) sessionId)) =
         length (candidates (votingSessions (run k xs deployed) sessionId))"
    and "length (finalTally (votingSessions (run k xs deployed) sessionId)) < 2 ^ 256"
    and "2 \<le> length (candidates (votingSessions (run k xs deployed) sessionId))"
    and "finalTally (votingSessions (run k xs deployed) sessionId) \<noteq> []"
proof -
  have "storage_ok (run k xs deployed)"
    by (simp add: storage_ok_run storage_ok_deployed)
  then have ok: "session_ok (votingSessions (run k xs deployed) sessionId)"
    by (simp add: storage_ok_def)
  with assms(2) show
    l: "length (finalTally (votingSessions (run k xs deployed) sessionId)) =
        length (candidates (votingSessions (run k xs deployed) sessionId))"
    and c: "2 \<le> length (candidates (votingSessions (run k xs deployed) sessionId))"
    by (simp_all add: session_ok_def)
  from l c show "finalTally (votingSessions (run k xs deployed) sessionId) \<noteq> []"
    by auto
  have "lengths_ok (run k xs deployed)"
    using assms(1) by (simp add: lengths_ok_run lengths_ok_deployed)
  then show "length (finalTally (votingSessions (run k xs deployed) sessionId)) < 2 ^ 256"
    by (simp add: lengths_ok_def)
qed

lemma filter_all_indices:
  "\<forall>n \<in> set t. n = h \<Longrightarrow> filter (\<lambda>j. t ! j = h) [0..<length t] = [0..<length t]"
  by (simp add: filter_id_conv)

text \<open>
  C1: after any sequence of well-formed transactions, for a session whose results have
  been calculated, \<open>getWinners\<close> returns the candidates whose entry of \<open>finalTally\<close> is
  the maximum of \<open>finalTally\<close>, in increasing order of their index, and nothing else:
  all of them when several share the maximum, and every candidate when all entries are 0.
\<close>

theorem getWinners_highest:
  fixes k xs sessionId
  defines "v \<equiv> votingSessions (run k xs deployed) sessionId"
  assumes "list_all well_formed xs" and "resultsCalculated v"
  shows "getWinners sessionId (run k xs deployed) =
           Inr (map (\<lambda>i. candidates v ! i)
                  (filter (\<lambda>i. finalTally v ! i = Max (set (finalTally v)))
                     [0..<length (candidates v)])) \<and>
         ((\<forall>n \<in> set (finalTally v). n = 0) \<longrightarrow>
            getWinners sessionId (run k xs deployed) = Inr (candidates v))"
proof -
  note f = finalized_session [OF assms(2) assms(3) [unfolded v_def], folded v_def]
  have w: "getWinners sessionId (run k xs deployed) =
      Inr (map (\<lambda>i. candidates v ! i)
        (filter (\<lambda>i. finalTally v ! i = Max (set (finalTally v))) [0..<length (finalTally v)]))"
    unfolding v_def
    by (rule getWinners_result) (use assms(3) f in \<open>simp_all add: v_def\<close>)
  have "getWinners sessionId (run k xs deployed) = Inr (candidates v)"
    if z: "\<forall>n \<in> set (finalTally v). n = 0"
  proof -
    from f(4) have "Max (set (finalTally v)) \<in> set (finalTally v)"
      by simp
    with z have "Max (set (finalTally v)) = 0" by blast
    with z have "filter (\<lambda>i. finalTally v ! i = Max (set (finalTally v))) [0..<length (finalTally v)]
        = [0..<length (finalTally v)]"
      by (simp add: filter_all_indices)
    with w show ?thesis
      by (simp add: f(1) map_nth)
  qed
  with w show ?thesis by (simp add: f(1))
qed

text \<open>
  C10: after any sequence of well-formed transactions, for a session whose results have
  been calculated, \<open>getWinners\<close> returns a list that is not empty; the session has at
  least two candidates and as many entries of \<open>finalTally\<close>.
\<close>

theorem getWinners_not_empty:
  fixes k xs sessionId
  defines "v \<equiv> votingSessions (run k xs deployed) sessionId"
  assumes "list_all well_formed xs" and "resultsCalculated v"
  shows "\<exists>winners. getWinners sessionId (run k xs deployed) = Inr winners \<and> winners \<noteq> [] \<and>
           2 \<le> length (candidates v) \<and> length (finalTally v) = length (candidates v)"
proof -
  note f = finalized_session [OF assms(2) assms(3) [unfolded v_def], folded v_def]
  have w: "getWinners sessionId (run k xs deployed) =
      Inr (map (\<lambda>i. candidates v ! i)
        (filter (\<lambda>i. finalTally v ! i = Max (set (finalTally v))) [0..<length (finalTally v)]))"
    unfolding v_def
    by (rule getWinners_result) (use assms(3) f in \<open>simp_all add: v_def\<close>)
  from f(4) have "Max (set (finalTally v)) \<in> set (finalTally v)"
    by simp
  then obtain i where "i < length (finalTally v)" "finalTally v ! i = Max (set (finalTally v))"
    by (auto simp: in_set_conv_nth)
  then have "i \<in> set (filter (\<lambda>i. finalTally v ! i = Max (set (finalTally v)))
      [0..<length (finalTally v)])"
    by simp
  then have "filter (\<lambda>i. finalTally v ! i = Max (set (finalTally v))) [0..<length (finalTally v)] \<noteq> []"
    by (metis empty_iff empty_set)
  with w f show ?thesis by simp
qed

theorem getWinners_highest_witness:
  "list_all well_formed [fruit_poll, cast 2 110 0, cast 3 120 1, close_poll] \<and>
   resultsCalculated (votingSessions
     (run bytes_hash [fruit_poll, cast 2 110 0, cast 3 120 1, close_poll] deployed) 0) \<and>
   getWinners 0 (run bytes_hash [fruit_poll, cast 2 110 0, cast 3 120 1, close_poll] deployed) =
     Inr [''Banana'', ''Watermelon''] \<and>
   list_all well_formed [fruit_poll, close_poll] \<and>
   resultsCalculated (votingSessions (run bytes_hash [fruit_poll, close_poll] deployed) 0) \<and>
   finalTally (votingSessions (run bytes_hash [fruit_poll, close_poll] deployed) 0) = [0, 0, 0] \<and>
   getWinners 0 (run bytes_hash [fruit_poll, close_poll] deployed) =
     Inr [''Banana'', ''Watermelon'', ''Papaya'']"
proof -
  have wf: "list_all well_formed [fruit_poll, cast 2 110 0, cast 3 120 1, close_poll]"
    "list_all well_formed [fruit_poll, close_poll]"
    by (simp_all add: fruit_poll_def cast_def close_poll_def)
  have rc: "resultsCalculated (votingSessions
     (run bytes_hash [fruit_poll, cast 2 110 0, cast 3 120 1, close_poll] deployed) 0)"
    unfolding run_closed by simp
  have s2: "votingSessions (run bytes_hash [fruit_poll, close_poll] deployed) 0 =
    poll_session\<lparr>isActive := False, resultsCalculated := True\<rparr>"
    by (simp add: example_defs)
  from getWinners_highest [OF wf(1) rc] getWinners_highest [OF wf(2), of bytes_hash 0] wf rc s2
  show ?thesis
    unfolding run_closed by (simp add: poll_session_def)
qed

theorem getWinners_not_empty_witness:
  "list_all well_formed [fruit_poll, cast 2 110 0, cast 3 120 1, cast 4 130 1, close_poll] \<and>
   resultsCalculated (votingSessions
     (run bytes_hash [fruit_poll, cast 2 110 0, cast 3 120 1, cast 4 130 1, close_poll] deployed) 0) \<and>
   (\<exists>winners.
      getWinners 0 (run bytes_hash [fruit_poll, cast 2 110 0, cast 3 120 1, cast 4 130 1, close_poll] deployed)
        = Inr winners \<and> winners \<noteq> []) \<and>
   getWinners 0 (run bytes_hash [fruit_poll, cast 2 110 0, cast 3 120 1, cast 4 130 1, close_poll] deployed)
     = Inr [''Watermelon'']"
proof -
  have wf: "list_all well_formed [fruit_poll, cast 2 110 0, cast 3 120 1, cast 4 130 1, close_poll]"
    by (simp_all add: fruit_poll_def cast_def close_poll_def)
  have s: "votingSessions
      (run bytes_hash [fruit_poll, cast 2 110 0, cast 3 120 1, cast 4 130 1, close_poll] deployed) 0 =
    poll_session\<lparr>isActive := False, resultsCalculated := True, finalTally := [1, 2, 0],
      hasVoted := (\<lambda>a. False)(2 := True, 3 := True, 4 := True)\<rparr>"
    by (simp add: example_defs)
  have rc: "resultsCalculated (votingSessions
     (run bytes_hash [fruit_poll, cast 2 110 0, cast 3 120 1, cast 4 130 1, close_poll] deployed) 0)"
    unfolding s by simp
  have "getWinners 0
      (run bytes_hash [fruit_poll, cast 2 110 0, cast 3 120 1, cast 4 130 1, close_poll] deployed)
     = Inr [''Watermelon'']"
    unfolding getWinners_def s
    by (simp add: poll_session_def count_winners.simps collect_winners.simps checked_add_def)
  with getWinners_not_empty [OF wf rc] wf rc show ?thesis by blast
qed

section \<open>One vote for each address\<close>

lemma vote_hasVoted_fails:
  "hasVoted (votingSessions s sessionId) a \<Longrightarrow>
   vote a t sessionId c s =
     Inl (Revert (if \<not> isActive (votingSessions s sessionId) then ''Voting session is not active.''
                  else if \<not> t \<le> endTimestamp (votingSessions s sessionId)
                    then ''Voting session has ended.''
                  else ''You have already voted.''))"
  by (simp add: vote_def Let_def)

lemma hasVoted_transact:
  assumes "hasVoted (votingSessions s i) a"
  shows "hasVoted (votingSessions (snd (transact k x s)) i) a"
proof (cases "tx_call x")
  case (CreateVotingSession ti cs d)
  with assms show ?thesis
    by (auto simp: transact_def split: sum.splits dest!: createVotingSession_Inr(5))
next
  case (Vote sessionId c)
  with assms show ?thesis
    by (auto simp: transact_def split: sum.splits dest!: vote_Inr(7))
next
  case (CalculateResults sessionId)
  with assms show ?thesis
    by (auto simp: transact_def split: sum.splits dest!: calculateResults_Inr(4))
qed

lemma transact_vote_Done:
  assumes "msg_sender x = a" and "is_vote_on sessionId (tx_call x)"
    and "fst (transact k x s) = Done"
  shows "\<not> hasVoted (votingSessions s sessionId) a"
    and "hasVoted (votingSessions (snd (transact k x s)) sessionId) a"
proof -
  from assms(2) obtain c where c: "tx_call x = Vote sessionId c"
    by (cases "tx_call x") auto
  with assms(1,3) obtain s' where v: "vote a (block_timestamp x) sessionId c s = Inr s'"
    and s': "snd (transact k x s) = s'"
    by (auto simp: transact_def split: sum.splits)
  from vote_Inr(3) [OF v] show "\<not> hasVoted (votingSessions s sessionId) a" .
  from vote_Inr(7) [OF v] show "hasVoted (votingSessions (snd (transact k x s)) sessionId) a"
    by (simp add: s')
qed

lemma accepted_votes_hasVoted:
  "hasVoted (votingSessions s sessionId) a \<Longrightarrow> accepted_votes k a sessionId xs s = 0"
proof (induction xs arbitrary: s)
  case Nil
  show ?case by simp
next
  case (Cons x xs)
  from Cons.prems have "hasVoted (votingSessions (snd (transact k x s)) sessionId) a"
    by (rule hasVoted_transact)
  then have "accepted_votes k a sessionId xs (snd (transact k x s)) = 0"
    by (rule Cons.IH)
  with Cons.prems transact_vote_Done(1) [of x a sessionId k s] show ?case
    by auto
qed

lemma accepted_votes_le_1: "accepted_votes k a sessionId xs s \<le> 1"
proof (induction xs arbitrary: s)
  case Nil
  show ?case by simp
next
  case (Cons x xs)
  show ?case
  proof (cases "msg_sender x = a \<and> is_vote_on sessionId (tx_call x) \<and> fst (transact k x s) = Done")
    case True
    then have "hasVoted (votingSessions (snd (transact k x s)) sessionId) a"
      using transact_vote_Done(2) [of x a sessionId k s] by simp
    then have "accepted_votes k a sessionId xs (snd (transact k x s)) = 0"
      by (rule accepted_votes_hasVoted)
    with True show ?thesis by simp
  next
    case False
    with Cons.IH [of "snd (transact k x s)"] show ?thesis by auto
  qed
qed

text \<open>
  C2, as the code has it: of the votes of one address for one session, at most one is
  ever accepted. Once the address is marked in \<open>hasVoted\<close>, no later vote of it for
  that session is accepted, and each such attempt is aborted and leaves the state, so
  the tally, as it was. The error follows the order of the checks of \<open>vote\<close>: "Voting
  session is not active." when the session is no longer active, "Voting session has
  ended." when it is active and the time is after \<open>endTimestamp\<close>, and "You have
  already voted." otherwise.
\<close>

theorem second_vote_fails:
  "accepted_votes k a sessionId xs s \<le> 1 \<and>
   (hasVoted (votingSessions s sessionId) a \<longrightarrow>
      accepted_votes k a sessionId xs s = 0 \<and>
      vote a t sessionId c s =
        Inl (Revert (if \<not> isActive (votingSessions s sessionId)
                       then ''Voting session is not active.''
                     else if \<not> t \<le> endTimestamp (votingSessions s sessionId)
                       then ''Voting session has ended.''
                     else ''You have already voted.'')) \<and>
      snd (transact k \<lparr>msg_sender = a, block_timestamp = t, tx_call = Vote sessionId c\<rparr> s) = s)"
proof (intro conjI impI)
  show "accepted_votes k a sessionId xs s \<le> 1"
    by (rule accepted_votes_le_1)
next
  assume h: "hasVoted (votingSessions s sessionId) a"
  then show "accepted_votes k a sessionId xs s = 0"
    by (rule accepted_votes_hasVoted)
  from h show v: "vote a t sessionId c s =
        Inl (Revert (if \<not> isActive (votingSessions s sessionId)
                       then ''Voting session is not active.''
                     else if \<not> t \<le> endTimestamp (votingSessions s sessionId)
                       then ''Voting session has ended.''
                     else ''You have already voted.''))"
    by (rule vote_hasVoted_fails)
  show "snd (transact k \<lparr>msg_sender = a, block_timestamp = t, tx_call = Vote sessionId c\<rparr> s) = s"
    by (simp add: transact_def v)
qed

theorem second_vote_fails_witness:
  "hasVoted (votingSessions (run bytes_hash [fruit_poll, cast 2 110 0, cast 3 120 1] deployed) 0) 2 \<and>
   accepted_votes bytes_hash 2 0 [fruit_poll, cast 2 110 0, cast 3 120 1, cast 2 130 1] deployed = 1 \<and>
   vote 2 130 0 1 (run bytes_hash [fruit_poll, cast 2 110 0, cast 3 120 1] deployed) =
     Inl (Revert ''You have already voted.'') \<and>
   finalTally (votingSessions
     (snd (transact bytes_hash \<lparr>msg_sender = 2, block_timestamp = 130, tx_call = Vote 0 1\<rparr>
        (run bytes_hash [fruit_poll, cast 2 110 0, cast 3 120 1] deployed))) 0) = [1, 1, 0]"
proof -
  have a: "accepted_votes bytes_hash 2 0 [fruit_poll, cast 2 110 0, cast 3 120 1, cast 2 130 1] deployed = 1"
    by (simp add: example_defs)
  from second_vote_fails [of bytes_hash 2 0 "[]"
      "run bytes_hash [fruit_poll, cast 2 110 0, cast 3 120 1] deployed" 130 1] a
  show ?thesis
    unfolding run_two_votes by (simp add: poll_session_def)
qed

text \<open>
  C2 as it is stated fails: address 2 votes in session 0 at time 110 and is accepted; its
  second attempt at time 161, after the \<open>endTimestamp\<close> 160 and before any
  \<open>calculateResults\<close>, fails with "Voting session has ended.", not with "You have
  already voted.".
\<close>

theorem second_vote_counterexample:
  "outcomes bytes_hash [fruit_poll, cast 2 110 0] deployed = [Created 0, Done] \<and>
   vote 2 161 0 1 (run bytes_hash [fruit_poll, cast 2 110 0] deployed) =
     Inl (Revert ''Voting session has ended.'') \<and>
   vote 2 161 0 1 (run bytes_hash [fruit_poll, cast 2 110 0] deployed) \<noteq>
     Inl (Revert ''You have already voted.'')"
  by (simp add: example_defs)

section \<open>All or nothing\<close>

lemma transact_Aborted: "fst (transact k x s) = Aborted e \<Longrightarrow> snd (transact k x s) = s"
  by (cases "tx_call x") (auto simp: transact_def split: sum.splits)

lemma transact_Created:
  assumes "tx_call x = CreateVotingSession ti cs d"
    and "fst (transact k x s) = Created sessionId"
  shows "createVotingSession k (block_timestamp x) ti cs d s = Inr (sessionId, snd (transact k x s))"
  using assms by (auto simp: transact_def split: sum.splits)

lemma transact_Vote:
  assumes "tx_call x = Vote sessionId c" and "fst (transact k x s) = Done"
  shows "vote (msg_sender x) (block_timestamp x) sessionId c s = Inr (snd (transact k x s))"
  using assms by (auto simp: transact_def split: sum.splits)

lemma transact_CalculateResults:
  assumes "tx_call x = CalculateResults sessionId" and "fst (transact k x s) = Done"
  shows "calculateResults (block_timestamp x) sessionId s = Inr (snd (transact k x s))"
  using assms by (auto simp: transact_def split: sum.splits)

lemma createVotingSession_fresh:
  assumes ok: "storage_ok s"
    and c: "createVotingSession k t ti cs d s = Inr (sessionId, s')"
  shows "s' = s\<lparr>votingSessionCount := votingSessionCount s + 1,
               votingSessions := (votingSessions s)(sessionId :=
                 \<lparr>title = ti, candidates = cs, isActive = True, startTimestamp = t,
                  endTimestamp = t + d, resultsCalculated = False,
                  finalTally = replicate (length cs) 0, hasVoted = (\<lambda>a. False)\<rparr>),
               events := events s @ [VotingSessionCreated sessionId ti cs t (t + d)]\<rparr>"
proof -
  note r = createVotingSession_Inr [OF c]
  have "votingSessions s (votingSessionCount s) = default_session"
    using ok by (simp add: storage_ok_def)
  then show ?thesis
    by (simp add: r(5) r(1) default_session_def)
qed

text \<open>
  C5: a transaction that is aborted, with whatever error, leaves the state as it was. One
  that succeeds has made all the changes of its function and no other: a creation, in a
  state reached from deployment, has returned the old \<open>votingSessionCount\<close>, raised it
  by one and stored a session with the title, the candidates, the two timestamps, a
  tally of zeros, \<open>isActive\<close> set, \<open>resultsCalculated\<close> not set and nobody marked in
  \<open>hasVoted\<close>; a vote has marked the sender and raised the entry of the candidate by
  one; \<open>calculateResults\<close> has set \<open>resultsCalculated\<close> and cleared \<open>isActive\<close>;
  each has appended its event.
\<close>

theorem transact_all_or_nothing:
  "(fst (transact k x s) = Aborted e \<longrightarrow> snd (transact k x s) = s) \<and>
   (tx_call x = CreateVotingSession ti cs d \<and>
    fst (transact k x (run k xs deployed)) = Created sessionId \<longrightarrow>
      sessionId = votingSessionCount (run k xs deployed) \<and>
      unat (votingSessionCount (run k xs deployed) + 1) =
        unat (votingSessionCount (run k xs deployed)) + 1 \<and>
      unat (block_timestamp x + d) = unat (block_timestamp x) + unat d \<and>
      snd (transact k x (run k xs deployed)) =
        (run k xs deployed)
          \<lparr>votingSessionCount := votingSessionCount (run k xs deployed) + 1,
           votingSessions := (votingSessions (run k xs deployed))(sessionId :=
             \<lparr>title = ti, candidates = cs, isActive = True,
              startTimestamp = block_timestamp x, endTimestamp = block_timestamp x + d,
              resultsCalculated = False, finalTally = replicate (length cs) 0,
              hasVoted = (\<lambda>a. False)\<rparr>),
           events := events (run k xs deployed) @
             [VotingSessionCreated sessionId ti cs (block_timestamp x) (block_timestamp x + d)]\<rparr>) \<and>
   (tx_call x = Vote sessionId c \<and> fst (transact k x s) = Done \<longrightarrow>
      unat c < length (finalTally (votingSessions s sessionId)) \<and>
      unat (finalTally (votingSessions s sessionId) ! unat c + 1) =
        unat (finalTally (votingSessions s sessionId) ! unat c) + 1 \<and>
      snd (transact k x s) =
        s\<lparr>votingSessions := (votingSessions s)(sessionId :=
             (votingSessions s sessionId)
               \<lparr>hasVoted := (hasVoted (votingSessions s sessionId))(msg_sender x := True),
                finalTally := (finalTally (votingSessions s sessionId))
                  [unat c := finalTally (votingSessions s sessionId) ! unat c + 1]\<rparr>),
           events := events s @ [VoteCast sessionId (msg_sender x) c]\<rparr>) \<and>
   (tx_call x = CalculateResults sessionId \<and> fst (transact k x s) = Done \<longrightarrow>
      snd (transact k x s) =
        s\<lparr>votingSessions := (votingSessions s)(sessionId :=
             (votingSessions s sessionId)\<lparr>resultsCalculated := True, isActive := False\<rparr>),
           events := events s @
             [ResultsCalculated sessionId (finalTally (votingSessions s sessionId))]\<rparr>)"
proof (intro conjI impI)
  assume "fst (transact k x s) = Aborted e"
  then show "snd (transact k x s) = s"
    by (rule transact_Aborted)
next
  assume "tx_call x = CreateVotingSession ti cs d \<and>
    fst (transact k x (run k xs deployed)) = Created sessionId"
  then have c: "createVotingSession k (block_timestamp x) ti cs d (run k xs deployed) =
      Inr (sessionId, snd (transact k x (run k xs deployed)))"
    by (simp add: transact_Created)
  note r = createVotingSession_Inr [OF c]
  have ok: "storage_ok (run k xs deployed)"
    by (simp add: storage_ok_run storage_ok_deployed)
  show "sessionId = votingSessionCount (run k xs deployed)"
    by (rule r(1))
  show "unat (votingSessionCount (run k xs deployed) + 1) =
        unat (votingSessionCount (run k xs deployed)) + 1"
    using r(2) by (simp add: r(5))
  show "unat (block_timestamp x + d) = unat (block_timestamp x) + unat d"
    using r(3) by (simp add: unat_word_ariths)
  show "snd (transact k x (run k xs deployed)) =
        (run k xs deployed)
          \<lparr>votingSessionCount := votingSessionCount (run k xs deployed) + 1,
           votingSessions := (votingSessions (run k xs deployed))(sessionId :=
             \<lparr>title = ti, candidates = cs, isActive = True,
              startTimestamp = block_timestamp x, endTimestamp = block_timestamp x + d,
              resultsCalculated = False, finalTally = replicate (length cs) 0,
              hasVoted = (\<lambda>a. False)\<rparr>),
           events := events (run k xs deployed) @
             [VotingSessionCreated sessionId ti cs (block_timestamp x) (block_timestamp x + d)]\<rparr>"
    using ok c by (rule createVotingSession_fresh)
next
  assume "tx_call x = Vote sessionId c \<and> fst (transact k x s) = Done"
  then have v: "vote (msg_sender x) (block_timestamp x) sessionId c s = Inr (snd (transact k x s))"
    by (simp add: transact_Vote)
  note r = vote_Inr [OF v]
  show "unat c < length (finalTally (votingSessions s sessionId))"
    by (rule r(5))
  show "unat (finalTally (votingSessions s sessionId) ! unat c + 1) =
        unat (finalTally (votingSessions s sessionId) ! unat c) + 1"
    by (rule r(6))
  show "snd (transact k x s) =
        s\<lparr>votingSessions := (votingSessions s)(sessionId :=
             (votingSessions s sessionId)
               \<lparr>hasVoted := (hasVoted (votingSessions s sessionId))(msg_sender x := True),
                finalTally := (finalTally (votingSessions s sessionId))
                  [unat c := finalTally (votingSessions s sessionId) ! unat c + 1]\<rparr>),
           events := events s @ [VoteCast sessionId (msg_sender x) c]\<rparr>"
    by (rule r(7))
next
  assume "tx_call x = CalculateResults sessionId \<and> fst (transact k x s) = Done"
  then have "calculateResults (block_timestamp x) sessionId s = Inr (snd (transact k x s))"
    by (simp add: transact_CalculateResults)
  then show "snd (transact k x s) =
        s\<lparr>votingSessions := (votingSessions s)(sessionId :=
             (votingSessions s sessionId)\<lparr>resultsCalculated := True, isActive := False\<rparr>),
           events := events s @
             [ResultsCalculated sessionId (finalTally (votingSessions s sessionId))]\<rparr>"
    by (rule calculateResults_Inr(4))
qed

theorem transact_all_or_nothing_witness:
  "fst (transact bytes_hash (cast 2 161 0) (run bytes_hash [fruit_poll] deployed)) =
     Aborted (Revert ''Voting session has ended.'') \<and>
   snd (transact bytes_hash (cast 2 161 0) (run bytes_hash [fruit_poll] deployed)) =
     run bytes_hash [fruit_poll] deployed \<and>
   tx_call fruit_poll =
     CreateVotingSession ''Best fruit'' [''Banana'', ''Watermelon'', ''Papaya''] 60 \<and>
   fst (transact bytes_hash fruit_poll (run bytes_hash [] deployed)) = Created 0 \<and>
   votingSessions (snd (transact bytes_hash fruit_poll (run bytes_hash [] deployed))) 0 =
     poll_session \<and>
   votingSessionCount (snd (transact bytes_hash fruit_poll (run bytes_hash [] deployed))) = 1 \<and>
   tx_call (cast 2 110 0) = Vote 0 0 \<and>
   fst (transact bytes_hash (cast 2 110 0) (run bytes_hash [fruit_poll] deployed)) = Done \<and>
   votingSessions (snd (transact bytes_hash (cast 2 110 0) (run bytes_hash [fruit_poll] deployed))) 0 =
     poll_session\<lparr>finalTally := [1, 0, 0], hasVoted := (\<lambda>a. False)(2 := True)\<rparr> \<and>
   tx_call close_poll = CalculateResults 0 \<and>
   fst (transact bytes_hash close_poll
     (run bytes_hash [fruit_poll, cast 2 110 0, cast 3 120 1] deployed)) = Done \<and>
   snd (transact bytes_hash close_poll
     (run bytes_hash [fruit_poll, cast 2 110 0, cast 3 120 1] deployed)) =
     run bytes_hash [fruit_poll, cast 2 110 0, cast 3 120 1, close_poll] deployed"
proof -
  have h1: "fst (transact bytes_hash (cast 2 161 0) (run bytes_hash [fruit_poll] deployed)) =
     Aborted (Revert ''Voting session has ended.'')"
    unfolding run_fruit_poll by (simp add: example_defs)
  have h2: "tx_call fruit_poll =
      CreateVotingSession ''Best fruit'' [''Banana'', ''Watermelon'', ''Papaya''] 60 \<and>
    fst (transact bytes_hash fruit_poll (run bytes_hash [] deployed)) = Created 0"
    by (simp add: example_defs)
  have h3: "tx_call (cast 2 110 0) = Vote 0 0 \<and>
    fst (transact bytes_hash (cast 2 110 0) (run bytes_hash [fruit_poll] deployed)) = Done"
    unfolding run_fruit_poll by (simp add: example_defs)
  have h4: "tx_call close_poll = CalculateResults 0 \<and>
    fst (transact bytes_hash close_poll
      (run bytes_hash [fruit_poll, cast 2 110 0, cast 3 120 1] deployed)) = Done"
    unfolding run_two_votes by (simp add: example_defs)
  note t = transact_all_or_nothing
  from t [of bytes_hash "cast 2 161 0" "run bytes_hash [fruit_poll] deployed"
        "Revert ''Voting session has ended.''"] h1
  have c1: "snd (transact bytes_hash (cast 2 161 0) (run bytes_hash [fruit_poll] deployed)) =
     run bytes_hash [fruit_poll] deployed"
    by blast
  from t [of bytes_hash fruit_poll _ _ "''Best fruit''" "[''Banana'', ''Watermelon'', ''Papaya'']" 60
        "[]" 0] h2
  have c2: "snd (transact bytes_hash fruit_poll (run bytes_hash [] deployed)) =
        (run bytes_hash [] deployed)
          \<lparr>votingSessionCount := votingSessionCount (run bytes_hash [] deployed) + 1,
           votingSessions := (votingSessions (run bytes_hash [] deployed))(0 :=
             \<lparr>title = ''Best fruit'', candidates = [''Banana'', ''Watermelon'', ''Papaya''],
              isActive = True,
              startTimestamp = block_timestamp fruit_poll,
              endTimestamp = block_timestamp fruit_poll + 60,
              resultsCalculated = False,
              finalTally = replicate (length [''Banana'', ''Watermelon'', ''Papaya'']) 0,
              hasVoted = (\<lambda>a. False)\<rparr>),
           events := events (run bytes_hash [] deployed) @
             [VotingSessionCreated 0 ''Best fruit'' [''Banana'', ''Watermelon'', ''Papaya'']
                (block_timestamp fruit_poll) (block_timestamp fruit_poll + 60)]\<rparr>"
    by blast
  from t [of bytes_hash "cast 2 110 0" "run bytes_hash [fruit_poll] deployed" _ _ _ _ _ 0 0] h3
  have c3: "snd (transact bytes_hash (cast 2 110 0) (run bytes_hash [fruit_poll] deployed)) =
      (run bytes_hash [fruit_poll] deployed)
        \<lparr>votingSessions := (votingSessions (run bytes_hash [fruit_poll] deployed))(0 :=
           (votingSessions (run bytes_hash [fruit_poll] deployed) 0)
             \<lparr>hasVoted := (hasVoted (votingSessions (run bytes_hash [fruit_poll] deployed) 0))
                (msg_sender (cast 2 110 0) := True),
              finalTally := (finalTally (votingSessions (run bytes_hash [fruit_poll] deployed) 0))
                [unat (0 :: uint) :=
                   finalTally (votingSessions (run bytes_hash [fruit_poll] deployed) 0) ! unat (0 :: uint) + 1]\<rparr>),
         events := events (run bytes_hash [fruit_poll] deployed) @
           [VoteCast 0 (msg_sender (cast 2 110 0)) 0]\<rparr>"
    by blast
  from t [of bytes_hash close_poll "run bytes_hash [fruit_poll, cast 2 110 0, cast 3 120 1] deployed"
        _ _ _ _ _ 0] h4
  have c4: "snd (transact bytes_hash close_poll
      (run bytes_hash [fruit_poll, cast 2 110 0, cast 3 120 1] deployed)) =
      (run bytes_hash [fruit_poll, cast 2 110 0, cast 3 120 1] deployed)
        \<lparr>votingSessions :=
           (votingSessions (run bytes_hash [fruit_poll, cast 2 110 0, cast 3 120 1] deployed))(0 :=
             (votingSessions (run bytes_hash [fruit_poll, cast 2 110 0, cast 3 120 1] deployed) 0)
               \<lparr>resultsCalculated := True, isActive := False\<rparr>),
         events := events (run bytes_hash [fruit_poll, cast 2 110 0, cast 3 120 1] deployed) @
           [ResultsCalculated 0
              (finalTally (votingSessions
                 (run bytes_hash [fruit_poll, cast 2 110 0, cast 3 120 1] deployed) 0))]\<rparr>"
    by blast
  have g2: "votingSessions (snd (transact bytes_hash fruit_poll (run bytes_hash [] deployed))) 0 =
      poll_session"
    "votingSessionCount (snd (transact bytes_hash fruit_poll (run bytes_hash [] deployed))) = 1"
    unfolding c2 by (simp_all add: fruit_poll_def poll_session_def deployed_def)
  have g3: "votingSessions
      (snd (transact bytes_hash (cast 2 110 0) (run bytes_hash [fruit_poll] deployed))) 0 =
     poll_session\<lparr>finalTally := [1, 0, 0], hasVoted := (\<lambda>a. False)(2 := True)\<rparr>"
    using c3 unfolding run_fruit_poll by (simp add: cast_def poll_session_def)
  have g4: "snd (transact bytes_hash close_poll
     (run bytes_hash [fruit_poll, cast 2 110 0, cast 3 120 1] deployed)) =
     run bytes_hash [fruit_poll, cast 2 110 0, cast 3 120 1, close_poll] deployed"
    using c4 unfolding run_two_votes run_closed by (simp add: poll_session_def)
  from h1 c1 h2 g2 h3 g3 h4 g4 show ?thesis by blast
qed

end
